theory Spec2Isabelle
  imports Main "HOL-Library.Word" "HOL-Library.Monad_Syntax"
begin

section \<open>Data model of \<^verbatim>\<open>assert/_diff.ts\<close>\<close>

text \<open>
  The enum \<^verbatim>\<open>DiffType\<close> and the interface \<^verbatim>\<open>DiffResult<T>\<close>. The optional field
  \<^verbatim>\<open>details\<close> is \<open>None\<close> when the property is absent.
\<close>

datatype DiffType = removed | common | added

datatype 'a DiffResult =
  DiffResult (type: DiffType) (value': 'a) (details: "'a DiffResult list option")

text \<open>
  Reading a JavaScript array at an index: \<open>None\<close> is \<^verbatim>\<open>undefined\<close>, the value of a
  read outside \<open>0 \<le> i < length\<close>. Array elements themselves are taken to be defined values.
\<close>

definition at :: "'a list \<Rightarrow> int \<Rightarrow> 'a option" where
  "at xs i = (if 0 \<le> i \<and> i < int (length xs) then Some (xs ! nat i) else None)"

text \<open>
  The numbers of the search are integers far below \<open>2^53\<close>, or \<^verbatim>\<open>undefined\<close>/\<^verbatim>\<open>NaN\<close> when a
  typed array is read out of range: \<open>None\<close> stands for both, since every comparison with
  either is false, arithmetic on either gives \<^verbatim>\<open>NaN\<close>, and a \<^verbatim>\<open>Uint32Array\<close> stores
  either as \<open>0\<close>.
\<close>

type_synonym jsnum = "int option"

fun js_lt :: "jsnum \<Rightarrow> jsnum \<Rightarrow> bool" where
  "js_lt (Some x) (Some y) = (x < y)"
| "js_lt _ _ = False"

fun js_ge :: "jsnum \<Rightarrow> jsnum \<Rightarrow> bool" where
  "js_ge (Some x) (Some y) = (x \<ge> y)"
| "js_ge _ _ = False"

fun js_add :: "jsnum \<Rightarrow> int \<Rightarrow> jsnum" where
  "js_add (Some x) k = Some (x + k)"
| "js_add None k = None"

text \<open>A \<^verbatim>\<open>Uint32Array\<close>: reads, and writes that wrap modulo \<open>2^32\<close> and are dropped out of range.\<close>

definition u32_get :: "32 word list \<Rightarrow> int \<Rightarrow> jsnum" where
  "u32_get v i = map_option uint (at v i)"

fun to_u32 :: "jsnum \<Rightarrow> 32 word" where
  "to_u32 None = 0"
| "to_u32 (Some z) = word_of_int z"

definition u32_set :: "32 word list \<Rightarrow> int \<Rightarrow> jsnum \<Rightarrow> 32 word list" where
  "u32_set v i x = (if 0 \<le> i \<and> i < int (length v) then v[nat i := to_u32 x] else v)"


section \<open>\<^verbatim>\<open>diffSequence\<close> and \<^verbatim>\<open>diff\<close>\<close>

text \<open>
  The calls of \<^verbatim>\<open>console.log\<close> and the string built from \<^verbatim>\<open>trace\<close> only to be logged
  are left out: they write to the console and change no value that is returned.

  The loop that finds matches at the start; it returns \<^verbatim>\<open>start\<close> and \<^verbatim>\<open>commonPrefix\<close>.
\<close>

function prefix_loop :: "'a list \<Rightarrow> 'a list \<Rightarrow> nat \<Rightarrow> nat \<Rightarrow> 'a DiffResult list
    \<Rightarrow> nat \<times> 'a DiffResult list" where
  "prefix_loop a b minLen start commonPrefix =
     (if start < minLen then
        (if at a (int start) \<noteq> at b (int start) then (start, commonPrefix)
         else prefix_loop a b minLen (start + 1)
                (commonPrefix @ [DiffResult common (a ! start) None]))
      else (start, commonPrefix))"
  by pat_completeness auto
termination
  by (relation "measure (\<lambda>(a, b, minLen, start, cp). minLen - start)") auto

text \<open>The loop that finds matches at the end, from \<^verbatim>\<open>i = 1\<close>; it returns \<^verbatim>\<open>commonSuffix\<close>.\<close>

function suffix_loop :: "'a list \<Rightarrow> 'a list \<Rightarrow> nat \<Rightarrow> nat \<Rightarrow> 'a DiffResult list
    \<Rightarrow> 'a DiffResult list" where
  "suffix_loop a b endLimit i commonSuffix =
     (if i < endLimit + 1 then
        (if at a (int (length a) - int i) \<noteq> at b (int (length b) - int i) then commonSuffix
         else suffix_loop a b endLimit (i + 1)
                (commonSuffix @ [DiffResult common (a ! (length a - i)) None]))
      else commonSuffix)"
  by pat_completeness auto
termination
  by (relation "measure (\<lambda>(a, b, endLimit, i, cs). endLimit + 1 - i)") auto

declare prefix_loop.simps [simp del] suffix_loop.simps [simp del]

text \<open>
  The \<^verbatim>\<open>while\<close> loop that moves diagonally. A loop that does not return is the value
  \<open>None\<close>; that it always returns is proved below.
\<close>

partial_function (option) diagonal ::
  "'a list \<Rightarrow> 'a list \<Rightarrow> int \<Rightarrow> int \<Rightarrow> int \<Rightarrow> jsnum \<Rightarrow> jsnum \<Rightarrow> (jsnum \<times> jsnum) option" where
  "diagonal a b start n m x y =
     (if js_lt x (Some n) \<and> js_lt y (Some m)
         \<and> Option.bind x (\<lambda>xi. at a (xi + start)) = Option.bind y (\<lambda>yi. at b (yi + start))
      then diagonal a b start n m (js_add x 1) (js_add y 1)
      else Some (x, y))"

text \<open>The choice of \<^verbatim>\<open>x\<close> from the two neighbouring diagonals of \<^verbatim>\<open>v\<close>.\<close>

definition pick_x :: "32 word list \<Rightarrow> int \<Rightarrow> int \<Rightarrow> int \<Rightarrow> jsnum" where
  "pick_x v max' d k =
     (if k = - d \<or> (k \<noteq> d \<and> js_lt (u32_get v ((k - 1) + max')) (u32_get v ((k + 1) + max')))
      then u32_get v ((k + 1) + max')
      else js_add (u32_get v (max' + (k - 1))) 1)"

text \<open>
  The inner \<^verbatim>\<open>for\<close> loop over \<^verbatim>\<open>k\<close>, up to the bound \<open>hi\<close>; the flag says whether
  \<^verbatim>\<open>break search\<close> was taken.
\<close>

partial_function (option) k_loop ::
  "'a list \<Rightarrow> 'a list \<Rightarrow> int \<Rightarrow> int \<Rightarrow> int \<Rightarrow> int \<Rightarrow> int \<Rightarrow> int \<Rightarrow> int \<Rightarrow> 32 word list
     \<Rightarrow> (32 word list \<times> bool) option" where
  "k_loop a b start n m max' d hi k v =
     (if k < hi then
        do {
          (x, y) \<leftarrow> diagonal a b start n m (pick_x v max' d k) (js_add (pick_x v max' d k) (- k));
          if js_ge x (Some n) \<and> js_ge y (Some m) then Some (u32_set v (k + max') x, True)
          else k_loop a b start n m max' d hi (k + 2) (u32_set v (k + max') x)
        }
      else Some (v, False))"

text \<open>The outer loop \<^verbatim>\<open>search\<close> over \<^verbatim>\<open>d\<close>; it returns \<^verbatim>\<open>v\<close> and \<^verbatim>\<open>trace\<close>.\<close>

partial_function (option) d_loop ::
  "'a list \<Rightarrow> 'a list \<Rightarrow> int \<Rightarrow> int \<Rightarrow> int \<Rightarrow> int \<Rightarrow> int \<Rightarrow> 32 word list \<Rightarrow> 32 word list list
     \<Rightarrow> (32 word list \<times> 32 word list list) option" where
  "d_loop a b start n m max' d v trace =
     (if d < max' then
        do {
          (v', found) \<leftarrow> k_loop a b start n m max' d
             (d - 2 * (if d - n > 0 then d - n else 0) + 1)
             (- (d - 2 * (if d - m > 0 then d - m else 0))) v;
          if found then Some (v', if d > 0 then trace @ [v] else trace)
          else d_loop a b start n m max' (d + 1) v' (if d > 0 then trace @ [v] else trace)
        }
      else Some (v, trace))"

declare diagonal.simps [code] k_loop.simps [code] d_loop.simps [code]

text \<open>
  The part of \<^verbatim>\<open>diffSequence\<close> after the trimming: the search on the core between
  \<^verbatim>\<open>start\<close> and \<^verbatim>\<open>end\<close>, and the \<^verbatim>\<open>return []\<close> that ends the function.
\<close>

definition engine :: "'a list \<Rightarrow> 'a list \<Rightarrow> nat \<Rightarrow> nat \<Rightarrow> 'a DiffResult list option" where
  "engine a b start end' =
     (let n = int (length a) - int start - int end';
          m = int (length b) - int start - int end';
          max' = m + n
      in do {
        (v, trace) \<leftarrow> d_loop a b (int start) n m max' 0 (replicate (nat (2 * max' + 1)) 0) [];
        Some []
      })"

definition diffSequence :: "'a list \<Rightarrow> 'a list \<Rightarrow> 'a DiffResult list option" where
  "diffSequence a b =
     (let aLen = length a; bLen = length b in
      if aLen = 0 \<and> bLen = 0 then Some []
      else
        let minLen = (if aLen > bLen then bLen else aLen);
            (start, commonPrefix) = prefix_loop a b minLen 0 [];
            commonSuffix = suffix_loop a b (minLen - start) 1 [];
            end' = length commonSuffix
        in if start + end' = minLen then Some [] else engine a b start end')"

text \<open>
  \<^verbatim>\<open>diff\<close> returns \<^verbatim>\<open>diffSequence(A, B)\<close> in its first statement; the statements after
  that \<^verbatim>\<open>return\<close> are never run.
\<close>

definition diff :: "'a list \<Rightarrow> 'a list \<Rightarrow> 'a DiffResult list option" where
  "diff A B = diffSequence A B"


section \<open>Strings\<close>

text \<open>
  A JavaScript string is a sequence of 16-bit code units. \<open>js\<close> writes one from its ASCII
  characters; the control characters and the backslash have names.
\<close>

type_synonym jschar = "16 word"
type_synonym jsstring = "jschar list"

definition js :: "string \<Rightarrow> jsstring" where
  "js s = map of_char s"

abbreviation BS :: jschar where "BS \<equiv> 0x08"
abbreviation TAB :: jschar where "TAB \<equiv> 0x09"
abbreviation LF :: jschar where "LF \<equiv> 0x0A"
abbreviation VT :: jschar where "VT \<equiv> 0x0B"
abbreviation FF :: jschar where "FF \<equiv> 0x0C"
abbreviation CR :: jschar where "CR \<equiv> 0x0D"
abbreviation BSL :: jschar where "BSL \<equiv> 0x5C"

text \<open>The character classes of the regular expressions: \<^verbatim>\<open>\s\<close>, \<^verbatim>\<open>\w\<close>, \<^verbatim>\<open>[^\S\r\n]\<close>,
  \<^verbatim>\<open>[()[\]{}'"\r\n]\<close> and the class of \<^verbatim>\<open>words\<close>.\<close>

definition is_space :: "jschar \<Rightarrow> bool" where
  "is_space c = ((0x09 \<le> c \<and> c \<le> 0x0D) \<or> c = 0x20 \<or> c = 0xA0 \<or> c = 0x1680
     \<or> (0x2000 \<le> c \<and> c \<le> 0x200A) \<or> c = 0x2028 \<or> c = 0x2029 \<or> c = 0x202F
     \<or> c = 0x205F \<or> c = 0x3000 \<or> c = 0xFEFF)"

definition is_word_char :: "jschar \<Rightarrow> bool" where
  "is_word_char c = ((0x61 \<le> c \<and> c \<le> 0x7A) \<or> (0x41 \<le> c \<and> c \<le> 0x5A)
     \<or> (0x30 \<le> c \<and> c \<le> 0x39) \<or> c = 0x5F)"

definition is_blank :: "jschar \<Rightarrow> bool" where
  "is_blank c = (is_space c \<and> c \<noteq> CR \<and> c \<noteq> LF)"

definition is_bracket :: "jschar \<Rightarrow> bool" where
  "is_bracket c = (c = 0x28 \<or> c = 0x29 \<or> c = 0x5B \<or> c = 0x5D \<or> c = 0x7B \<or> c = 0x7D
     \<or> c = 0x27 \<or> c = 0x22 \<or> c = CR \<or> c = LF)"

definition is_letter :: "jschar \<Rightarrow> bool" where
  "is_letter c = ((0x61 \<le> c \<and> c \<le> 0x7A) \<or> (0x41 \<le> c \<and> c \<le> 0x5A)
     \<or> (0xC0 \<le> c \<and> c \<le> 0xFF) \<or> (0xD8 \<le> c \<and> c \<le> 0xF6) \<or> (0xF8 \<le> c \<and> c \<le> 0x2C6)
     \<or> (0x2C8 \<le> c \<and> c \<le> 0x2D7) \<or> (0x2DE \<le> c \<and> c \<le> 0x2FF)
     \<or> (0x1E00 \<le> c \<and> c \<le> 0x1EFF))"

text \<open>\<^verbatim>\<open>words.test(s)\<close>: \<open>s\<close> is not empty and all of it is in the class.\<close>

definition words_test :: "jsstring \<Rightarrow> bool" where
  "words_test s = (s \<noteq> [] \<and> list_all is_letter s)"

text \<open>\<^verbatim>\<open>/\s+/.test(s)\<close>: some character of \<open>s\<close> is white space.\<close>

definition has_space :: "jsstring \<Rightarrow> bool" where
  "has_space s = list_ex is_space s"


section \<open>\<^verbatim>\<open>unescape\<close>\<close>

text \<open>\<^verbatim>\<open>string.replaceAll(c, r)\<close> for a pattern of one character.\<close>

definition replaceAll :: "jschar \<Rightarrow> jsstring \<Rightarrow> jsstring \<Rightarrow> jsstring" where
  "replaceAll c r string = concat (map (\<lambda>x. if x = c then r else [x]) string)"

text \<open>
  The last \<^verbatim>\<open>replaceAll\<close>, of \<^verbatim>\<open>/\r\n|\r|\n/g\<close> by the function that maps \<^verbatim>\<open>"\r"\<close> to
  \<^verbatim>\<open>"\\r"\<close>, \<^verbatim>\<open>"\n"\<close> to \<^verbatim>\<open>"\\n\n"\<close> and \<^verbatim>\<open>"\r\n"\<close> to \<^verbatim>\<open>"\\r\\n\r\n"\<close>.
\<close>

fun replaceNewlines :: "jsstring \<Rightarrow> jsstring" where
  "replaceNewlines [] = []"
| "replaceNewlines [c] =
     (if c = CR then BSL # js ''r''
      else if c = LF then BSL # js ''n'' @ [LF]
      else [c])"
| "replaceNewlines (c # d # s) =
     (if c = CR \<and> d = LF then BSL # js ''r'' @ BSL # js ''n'' @ [CR, LF] @ replaceNewlines s
      else if c = CR then BSL # js ''r'' @ replaceNewlines (d # s)
      else if c = LF then BSL # js ''n'' @ [LF] @ replaceNewlines (d # s)
      else c # replaceNewlines (d # s))"

definition unescape :: "jsstring \<Rightarrow> jsstring" where
  "unescape string =
     replaceNewlines
       (replaceAll VT (BSL # js ''v'')
         (replaceAll TAB (BSL # js ''t'')
           (replaceAll FF (BSL # js ''f'')
             (replaceAll BS (BSL # js ''b'') string))))"


section \<open>\<^verbatim>\<open>tokenize\<close>\<close>

text \<open>
  \<^verbatim>\<open>String.prototype.split\<close> with a regular expression that is one capture group. The
  expression is given by its matcher: for the character before the position (if any) and
  the rest of the string from the position, the length of the match there, if there is one.
  In the loop, \<open>cur\<close> is the text from the end of the last separator (\<^verbatim>\<open>p\<close>) to the
  position (\<^verbatim>\<open>q\<close>) and \<open>rest\<close> is the text from \<^verbatim>\<open>q\<close>; a match that ends at \<^verbatim>\<open>p\<close> is
  skipped, any other match gives the text before it and the captured separator.
\<close>

type_synonym splitter = "jschar option \<Rightarrow> jsstring \<Rightarrow> nat option"

partial_function (option) split_loop ::
  "splitter \<Rightarrow> jschar option \<Rightarrow> jsstring \<Rightarrow> jsstring \<Rightarrow> jsstring list option" where
  "split_loop rx prev cur rest =
     (case rest of
        [] \<Rightarrow> Some [cur]
      | c # cs \<Rightarrow>
          (case rx prev rest of
             None \<Rightarrow> split_loop rx (Some c) (cur @ [c]) cs
           | Some len \<Rightarrow>
               if len = 0 \<and> cur = [] then split_loop rx (Some c) (cur @ [c]) cs
               else do {
                 A \<leftarrow> split_loop rx (if len = 0 then prev else Some (last (take len rest))) []
                        (drop len rest);
                 Some (cur # take len rest # A)
               }))"

definition js_split :: "splitter \<Rightarrow> jsstring \<Rightarrow> jsstring list option" where
  "js_split rx S =
     (if S = [] then (if rx None [] = None then Some [S] else Some [])
      else split_loop rx None [] S)"

text \<open>The matcher of \<^verbatim>\<open>/(\n|\r\n)/\<close>.\<close>

fun line_rx :: splitter where
  "line_rx prev [] = None"
| "line_rx prev [c] = (if c = LF then Some 1 else None)"
| "line_rx prev (c # d # s) =
     (if c = LF then Some 1 else if c = CR \<and> d = LF then Some 2 else None)"

text \<open>
  The matcher of \<^verbatim>\<open>/([^\S\r\n]+|[()[\]{}'"\r\n]|\b)/\<close>: a longest run of blanks, or one
  bracket, quote or line break, or the empty match at a word boundary.
\<close>

definition word_rx :: splitter where
  "word_rx prev rest =
     (case rest of
        [] \<Rightarrow> (if (case prev of None \<Rightarrow> False | Some p \<Rightarrow> is_word_char p) then Some 0 else None)
      | c # cs \<Rightarrow>
          if is_blank c then Some (length (takeWhile is_blank rest))
          else if is_bracket c then Some 1
          else if (case prev of None \<Rightarrow> False | Some p \<Rightarrow> is_word_char p) \<noteq> is_word_char c
          then Some 0
          else None)"

text \<open>
  The loop of the word mode that joins \<^verbatim>\<open>tokens[i]\<close> and \<^verbatim>\<open>tokens[i + 2]\<close> around an
  empty token. After the \<^verbatim>\<open>splice\<close>, \<^verbatim>\<open>i--\<close> and the loop's \<^verbatim>\<open>i++\<close> leave \<open>i\<close> as it is.
\<close>

definition joinable :: "jsstring list \<Rightarrow> nat \<Rightarrow> bool" where
  "joinable tokens i =
     (tokens ! (i + 1) = [] \<and> i + 2 < length tokens \<and> tokens ! (i + 2) \<noteq> []
      \<and> words_test (tokens ! i) \<and> words_test (tokens ! (i + 2)))"

partial_function (option) join_loop :: "jsstring list \<Rightarrow> nat \<Rightarrow> jsstring list option" where
  "join_loop tokens i =
     (if int i < int (length tokens) - 1 then
        (if joinable tokens i
         then join_loop (take i tokens @ [tokens ! i @ tokens ! (i + 2)] @ drop (i + 3) tokens) i
         else join_loop tokens (i + 1))
      else Some tokens)"

declare split_loop.simps [code] join_loop.simps [code]

text \<open>
  The loop of the line mode that merges the content and the line separators: \<open>i\<close> is the
  index of the first of the \<open>lines\<close> still to visit.
\<close>

fun merge_lines :: "nat \<Rightarrow> jsstring list \<Rightarrow> jsstring list \<Rightarrow> jsstring list" where
  "merge_lines i [] tokens = tokens"
| "merge_lines i (l # lines) tokens =
     merge_lines (i + 1) lines
       (if i mod 2 \<noteq> 0 then (if tokens = [] then tokens else butlast tokens @ [last tokens @ l])
        else tokens @ [l])"

definition tokenize :: "jsstring \<Rightarrow> bool \<Rightarrow> jsstring list option" where
  "tokenize string wordDiff =
     (if wordDiff then
        do {
          tokens \<leftarrow> js_split word_rx string;
          tokens \<leftarrow> join_loop tokens 0;
          Some (filter (\<lambda>token. token \<noteq> []) tokens)
        }
      else
        do {
          lines \<leftarrow> js_split line_rx string;
          Some (merge_lines 0 (if lines = [] \<or> last lines = [] then butlast lines else lines) [])
        })"

text \<open>The line tokens that \<^verbatim>\<open>diffstr\<close> compares: \<^verbatim>\<open>tokenize(`${unescape(A)}\n`)\<close>.\<close>

definition diffstr_lines :: "jsstring \<Rightarrow> jsstring list option" where
  "diffstr_lines A = tokenize (unescape A @ [LF]) False"


section \<open>\<^verbatim>\<open>createDetails\<close>\<close>

text \<open>
  The filter, then the map over the filtered array \<open>t\<close> with the index \<open>i\<close>: an entry is
  re-tagged with the type of \<^verbatim>\<open>t[i - 1]\<close> when it is \<open>common\<close>, \<^verbatim>\<open>t[i - 1]\<close> exists, the types
  of \<^verbatim>\<open>t[i - 1]\<close> and \<^verbatim>\<open>t[i + 1]\<close> (\<^verbatim>\<open>undefined\<close> when there is no such entry) are equal, and
  its value has white space.
\<close>

definition retag :: "jsstring DiffResult list \<Rightarrow> nat \<Rightarrow> jsstring DiffResult" where
  "retag t i =
     (case at t (int i - 1) of
        None \<Rightarrow> t ! i
      | Some p \<Rightarrow>
          if type (t ! i) = common \<and> Some (type p) = map_option type (at t (int i + 1))
             \<and> has_space (value' (t ! i))
          then DiffResult (type p) (value' (t ! i)) (details (t ! i))
          else t ! i)"

definition createDetails ::
  "jsstring DiffResult \<Rightarrow> jsstring DiffResult list \<Rightarrow> jsstring DiffResult list" where
  "createDetails line tokens =
     (let t = filter (\<lambda>r. type r = type line \<or> type r = common) tokens
      in map (retag t) [0..<length t])"


section \<open>Notions of the specification\<close>

text \<open>
  Applying an edit script: dropping the \<open>removed\<close> entries and reading the values of the
  others gives the new sequence; dropping the \<open>added\<close> entries gives the old one.
\<close>

definition apply_script :: "'a DiffResult list \<Rightarrow> 'a list" where
  "apply_script script = map value' (filter (\<lambda>r. type r \<noteq> removed) script)"

definition revert_script :: "'a DiffResult list \<Rightarrow> 'a list" where
  "revert_script script = map value' (filter (\<lambda>r. type r \<noteq> added) script)"

text \<open>The number of entries of a script that are not \<open>common\<close>.\<close>

definition edits :: "'a DiffResult list \<Rightarrow> nat" where
  "edits script = length (filter (\<lambda>r. type r \<noteq> common) script)"

text \<open>The least number of insertions and deletions that turn one sequence into another.\<close>

fun edit_distance :: "'a list \<Rightarrow> 'a list \<Rightarrow> nat" where
  "edit_distance [] ys = length ys"
| "edit_distance xs [] = length xs"
| "edit_distance (x # xs) (y # ys) =
     (if x = y then edit_distance xs ys
      else 1 + min (edit_distance xs (y # ys)) (edit_distance (x # xs) ys))"


section \<open>The search returns\<close>

lemma diagonal_returns_num: "diagonal a b start n m (Some xi) y \<noteq> None"
proof (induction "nat (n - xi)" arbitrary: xi y rule: less_induct)
  case less
  let ?C = "js_lt (Some xi) (Some n) \<and> js_lt y (Some m)
      \<and> Option.bind (Some xi) (\<lambda>xi. at a (xi + start)) = Option.bind y (\<lambda>yi. at b (yi + start))"
  show ?case
  proof (cases ?C)
    case True
    then have "nat (n - (xi + 1)) < nat (n - xi)" by simp
    from less [OF this] have rec: "diagonal a b start n m (Some (xi + 1)) (js_add y 1) \<noteq> None" .
    have "diagonal a b start n m (Some xi) y = diagonal a b start n m (Some (xi + 1)) (js_add y 1)"
      using True by (subst diagonal.simps) simp
    with rec show ?thesis by simp
  next
    case False
    have "diagonal a b start n m (Some xi) y = Some (Some xi, y)"
      using False by (subst diagonal.simps) auto
    then show ?thesis by simp
  qed
qed

lemma diagonal_returns: "diagonal a b start n m x y \<noteq> None"
proof (cases x)
  case None
  have "diagonal a b start n m None y = Some (None, y)"
    by (subst diagonal.simps) simp
  then show ?thesis unfolding None by simp
next
  case (Some xi)
  show ?thesis unfolding Some by (rule diagonal_returns_num)
qed

lemma k_loop_returns: "k_loop a b start n m max' d hi k v \<noteq> None"
proof (induction "nat (hi - k)" arbitrary: k v rule: less_induct)
  case less
  let ?x0 = "pick_x v max' d k"
  show ?case
  proof (cases "k < hi")
    case True
    obtain x y where xy: "diagonal a b start n m ?x0 (js_add ?x0 (- k)) = Some (x, y)"
      using diagonal_returns [of a b start n m ?x0 "js_add ?x0 (- k)"]
      by (cases "diagonal a b start n m ?x0 (js_add ?x0 (- k))") auto
    from True have "nat (hi - (k + 2)) < nat (hi - k)" by simp
    from less [OF this]
    have rec: "k_loop a b start n m max' d hi (k + 2) (u32_set v (k + max') x) \<noteq> None" .
    have "k_loop a b start n m max' d hi k v =
        (if js_ge x (Some n) \<and> js_ge y (Some m) then Some (u32_set v (k + max') x, True)
         else k_loop a b start n m max' d hi (k + 2) (u32_set v (k + max') x))"
      by (subst k_loop.simps) (simp only: True if_True xy bind.bind_lunit prod.case)
    with rec show ?thesis by (cases "js_ge x (Some n) \<and> js_ge y (Some m)") simp_all
  next
    case False
    have "k_loop a b start n m max' d hi k v = Some (v, False)"
      by (subst k_loop.simps) (simp only: False if_False)
    then show ?thesis by simp
  qed
qed

lemma d_loop_returns: "d_loop a b start n m max' d v trace \<noteq> None"
proof (induction "nat (max' - d)" arbitrary: d v trace rule: less_induct)
  case less
  let ?hi = "d - 2 * (if d - n > 0 then d - n else 0) + 1"
  let ?lo = "- (d - 2 * (if d - m > 0 then d - m else 0))"
  let ?tr = "if d > 0 then trace @ [v] else trace"
  show ?case
  proof (cases "d < max'")
    case True
    obtain v' found where kl: "k_loop a b start n m max' d ?hi ?lo v = Some (v', found)"
      using k_loop_returns [of a b start n m max' d ?hi ?lo v]
      by (cases "k_loop a b start n m max' d ?hi ?lo v") auto
    from True have "nat (max' - (d + 1)) < nat (max' - d)" by simp
    from less [OF this]
    have rec: "d_loop a b start n m max' (d + 1) v' ?tr \<noteq> None" .
    have "d_loop a b start n m max' d v trace =
        (if found then Some (v', ?tr) else d_loop a b start n m max' (d + 1) v' ?tr)"
      by (subst d_loop.simps) (simp only: True if_True kl bind.bind_lunit prod.case)
    with rec show ?thesis by (cases found) simp_all
  next
    case False
    have "d_loop a b start n m max' d v trace = Some (v, trace)"
      by (subst d_loop.simps) (simp only: False if_False)
    then show ?thesis by simp
  qed
qed

text \<open>The search pushes at most one row of \<^verbatim>\<open>trace\<close> for each value of \<^verbatim>\<open>d\<close>.\<close>

lemma d_loop_trace:
  "\<exists>v' trace'. d_loop a b start n m max' d v trace = Some (v', trace')
     \<and> length trace' \<le> length trace + nat (max' - d)"
proof (induction "nat (max' - d)" arbitrary: d v trace rule: less_induct)
  case less
  let ?hi = "d - 2 * (if d - n > 0 then d - n else 0) + 1"
  let ?lo = "- (d - 2 * (if d - m > 0 then d - m else 0))"
  let ?tr = "if d > 0 then trace @ [v] else trace"
  show ?case
  proof (cases "d < max'")
    case True
    obtain v1 found where kl: "k_loop a b start n m max' d ?hi ?lo v = Some (v1, found)"
      using k_loop_returns [of a b start n m max' d ?hi ?lo v]
      by (cases "k_loop a b start n m max' d ?hi ?lo v") auto
    have unfold: "d_loop a b start n m max' d v trace =
        (if found then Some (v1, ?tr) else d_loop a b start n m max' (d + 1) v1 ?tr)"
      by (subst d_loop.simps) (simp only: True if_True kl bind.bind_lunit prod.case)
    have tr: "length ?tr \<le> length trace + 1" by simp
    show ?thesis
    proof (cases found)
      case True
      with unfold tr \<open>d < max'\<close> show ?thesis by simp
    next
      case False
      from \<open>d < max'\<close> have "nat (max' - (d + 1)) < nat (max' - d)" by simp
      from less [OF this, of v1 ?tr] obtain v' trace'
        where "d_loop a b start n m max' (d + 1) v1 ?tr = Some (v', trace')"
          and "length trace' \<le> length ?tr + nat (max' - (d + 1))"
        by blast
      with unfold False tr \<open>d < max'\<close> show ?thesis by (simp split: if_splits)
    qed
  next
    case False
    have "d_loop a b start n m max' d v trace = Some (v, trace)"
      by (subst d_loop.simps) (simp only: False if_False)
    then show ?thesis by simp
  qed
qed

lemma engine_empty: "engine a b start end' = Some []"
proof -
  let ?n = "int (length a) - int start - int end'"
  let ?m = "int (length b) - int start - int end'"
  let ?v = "replicate (nat (2 * (?m + ?n) + 1)) (0 :: 32 word)"
  obtain v trace where "d_loop a b (int start) ?n ?m (?m + ?n) 0 ?v [] = Some (v, trace)"
    using d_loop_returns [of a b "int start" ?n ?m "?m + ?n" 0 ?v "[]"]
    by (cases "d_loop a b (int start) ?n ?m (?m + ?n) 0 ?v []") auto
  then show ?thesis by (simp add: engine_def Let_def)
qed

lemma diffSequence_empty: "diffSequence a b = Some []"
  by (simp add: diffSequence_def Let_def engine_empty split: prod.splits)


section \<open>What \<^verbatim>\<open>diff\<close> and \<^verbatim>\<open>diffSequence\<close> return\<close>

text \<open>
  C1 (round trip). The claim: the script returned by \<^verbatim>\<open>diff(A, B)\<close>, applied to \<open>A\<close>, gives
  \<open>B\<close>, and reverted on \<open>B\<close> gives \<open>A\<close>. The code returns the empty script for
  \<open>A = []\<close>, \<open>B = [1]\<close>, which applied to \<open>A\<close> gives \<open>[]\<close> and not \<open>[1]\<close>; and for
  \<open>A = [1]\<close>, \<open>B = []\<close> it returns the empty script, which reverted gives \<open>[]\<close> and not
  \<open>[1]\<close>.
\<close>

theorem diff_round_trip_fails:
  "map_option apply_script (diff ([] :: nat list) [1]) = Some []
   \<and> map_option revert_script (diff [1 :: nat] []) = Some []"
  by (simp add: diff_def diffSequence_empty apply_script_def revert_script_def)

text \<open>
  C2 (the entry point and the unfinished search). \<^verbatim>\<open>diff(A, B)\<close> is the result of
  \<^verbatim>\<open>diffSequence(A, B)\<close> for every input; the search that runs when the trimmed cores still
  differ returns, for any \<^verbatim>\<open>start\<close> and \<^verbatim>\<open>end\<close>, with the empty list; and so does
  \<^verbatim>\<open>diffSequence\<close> on every input.
\<close>

theorem diff_is_diffSequence_and_empty:
  "diff A B = diffSequence A B
   \<and> engine A B start end' = Some []
   \<and> diffSequence A B = Some []"
  by (simp add: diff_def engine_empty diffSequence_empty)

text \<open>
  C3 (identity). The claim: \<^verbatim>\<open>diffSequence(A, A)\<close> is one \<open>common\<close> entry for each element
  of \<open>A\<close>. On \<open>A = [1, 2]\<close> the code returns the empty list, not the two \<open>common\<close>
  entries.
\<close>

theorem diffSequence_identity_fails:
  "diffSequence [1 :: nat, 2] [1, 2] = Some []
   \<and> diffSequence [1 :: nat, 2] [1, 2] \<noteq> Some [DiffResult common 1 None, DiffResult common 2 None]"
  by (simp add: diffSequence_empty)

text \<open>
  C4 (empty inputs). \<^verbatim>\<open>diffSequence([], [])\<close> is the empty script, as claimed; but
  \<^verbatim>\<open>diffSequence([], [1, 2])\<close> and \<^verbatim>\<open>diffSequence([1, 2], [])\<close> are the empty script too,
  where the claim has two \<open>added\<close> and two \<open>removed\<close> entries.
\<close>

theorem diffSequence_empty_inputs:
  "diffSequence ([] :: nat list) [] = Some []
   \<and> diffSequence [] [1 :: nat, 2] = Some []
   \<and> diffSequence [1 :: nat, 2] [] = Some []"
  by (simp add: diffSequence_empty)

text \<open>
  C5 (minimality). The claim: the number of entries that are not \<open>common\<close> is the edit
  distance. For \<open>A = [a, b, c]\<close> and \<open>B = [a, x, c]\<close> the edit distance is 2 and the script
  the code returns has no such entry.
\<close>

theorem diffSequence_edits_not_distance:
  "map_option edits (diffSequence ''abc'' ''axc'') = Some 0
   \<and> edit_distance ''abc'' ''axc'' = 2"
  by (simp add: diffSequence_empty edits_def)



section \<open>The loops of the tokenizer return\<close>

lemma split_loop_returns: "split_loop rx prev cur rest \<noteq> None"
proof (induction "2 * length rest + (if cur = [] then 0 else 1 :: nat)"
    arbitrary: prev cur rest rule: less_induct)
  case less
  show ?case
  proof (cases rest)
    case Nil
    then show ?thesis by (subst split_loop.simps) simp
  next
    case (Cons c cs)
    have adv: "split_loop rx (Some c) (cur @ [c]) cs \<noteq> None"
      by (rule less) (simp add: Cons)
    show ?thesis
    proof (cases "rx prev (c # cs)")
      case None
      with adv show ?thesis unfolding Cons by (subst split_loop.simps) simp
    next
      case (Some len)
      show ?thesis
      proof (cases "len = 0 \<and> cur = []")
        case True
        with adv Some show ?thesis unfolding Cons by (subst split_loop.simps) simp
      next
        case False
        let ?p = "if len = 0 then prev else Some (last (take len (c # cs)))"
        have "split_loop rx ?p [] (drop len (c # cs)) \<noteq> None"
          by (rule less) (use False Cons in \<open>auto simp: drop_Cons' \<close>)
        then obtain A where "split_loop rx ?p [] (drop len (c # cs)) = Some A"
          by blast
        with Some False show ?thesis unfolding Cons by (subst split_loop.simps) auto
      qed
    qed
  qed
qed

lemma js_split_returns: "js_split rx S \<noteq> None"
  using split_loop_returns [of rx None "[]" S] by (auto simp: js_split_def)

lemma join_loop_returns: "join_loop tokens i \<noteq> None"
proof (induction "length tokens - i" arbitrary: tokens i rule: less_induct)
  case less
  show ?case
  proof (cases "int i < int (length tokens) - 1")
    case guard: True
    show ?thesis
    proof (cases "joinable tokens i")
      case True
      let ?ts = "take i tokens @ [tokens ! i @ tokens ! (i + 2)] @ drop (i + 3) tokens"
      from True have "i + 2 < length tokens" by (simp add: joinable_def)
      then have "length ?ts - i < length tokens - i" by simp
      from less [OF this] have "join_loop ?ts i \<noteq> None" .
      with guard True show ?thesis by (subst join_loop.simps) simp
    next
      case False
      from guard have "length tokens - (i + 1) < length tokens - i" by simp
      from less [OF this] have "join_loop tokens (i + 1) \<noteq> None" .
      with guard False show ?thesis by (subst join_loop.simps) simp
    qed
  next
    case False
    then show ?thesis by (subst join_loop.simps) simp
  qed
qed

lemma tokenize_returns: "tokenize string wordDiff \<noteq> None"
proof (cases wordDiff)
  case True
  obtain ts where ts: "js_split word_rx string = Some ts"
    using js_split_returns [of word_rx string] by blast
  obtain ts' where "join_loop ts 0 = Some ts'"
    using join_loop_returns [of ts 0] by blast
  with ts True show ?thesis by (simp add: tokenize_def)
next
  case False
  obtain ls where "js_split line_rx string = Some ls"
    using js_split_returns [of line_rx string] by blast
  with False show ?thesis by (simp add: tokenize_def)
qed

section \<open>The line mode of \<^verbatim>\<open>tokenize\<close>\<close>

lemma line_rx_prev: "line_rx p rest = line_rx None rest"
  by (cases "(p, rest)" rule: line_rx.cases) simp_all

lemma line_rx_pos: "line_rx p rest \<noteq> Some 0"
  by (cases "(p, rest)" rule: line_rx.cases) simp_all

lemma split_line_unfold:
  "split_loop line_rx p cur rest =
     (case rest of
        [] \<Rightarrow> Some [cur]
      | c # cs \<Rightarrow>
          (case line_rx None rest of
             None \<Rightarrow> split_loop line_rx (Some c) (cur @ [c]) cs
           | Some len \<Rightarrow>
               Option.bind (split_loop line_rx (Some (last (take len rest))) [] (drop len rest))
                 (\<lambda>A. Some (cur # take len rest # A))))"
proof (cases rest)
  case Nil
  then show ?thesis by (subst split_loop.simps) simp
next
  case (Cons c cs)
  show ?thesis
  proof (cases "line_rx None (c # cs)")
    case None
    then have "line_rx p (c # cs) = None" by (simp add: line_rx_prev [of p])
    with None show ?thesis unfolding Cons by (subst split_loop.simps) simp
  next
    case (Some len)
    then have p: "line_rx p (c # cs) = Some len" by (simp add: line_rx_prev [of p])
    with line_rx_pos [of p "c # cs"] have "len \<noteq> 0" by auto
    with Some p show ?thesis unfolding Cons by (subst split_loop.simps) simp
  qed
qed

lemma split_line_any_prev: "split_loop line_rx p cur rest = split_loop line_rx None cur rest"
  by (subst split_line_unfold [of p], subst split_line_unfold [of None], rule refl)

lemma split_line_LF:
  assumes "LF \<notin> set u"
  shows "\<exists>c s. c @ s = cur @ u @ [LF] \<and> s \<noteq> []
     \<and> split_loop line_rx prev cur (u @ LF # w)
       = Option.bind (split_loop line_rx None [] w) (\<lambda>A. Some (c # s # A))"
  using assms
proof (induction u arbitrary: cur prev)
  case Nil
  have "line_rx None (LF # w) = Some 1" by (cases w) simp_all
  then have "split_loop line_rx prev cur (LF # w)
      = Option.bind (split_loop line_rx (Some LF) [] w) (\<lambda>A. Some (cur # [LF] # A))"
    by (subst split_line_unfold) simp
  then have "split_loop line_rx prev cur ([] @ LF # w)
      = Option.bind (split_loop line_rx None [] w) (\<lambda>A. Some (cur # [LF] # A))"
    by (simp add: split_line_any_prev [of "Some LF"])
  then show ?case by (intro exI [of _ cur] exI [of _ "[LF]"]) simp
next
  case (Cons a u)
  then have a: "a \<noteq> LF" and u: "LF \<notin> set u" by auto
  show ?case
  proof (cases "a = CR \<and> u = []")
    case True
    have "split_loop line_rx prev cur (CR # LF # w)
        = Option.bind (split_loop line_rx (Some LF) [] w) (\<lambda>A. Some (cur # [CR, LF] # A))"
      by (subst split_line_unfold) simp
    then have "split_loop line_rx prev cur ((a # u) @ LF # w)
        = Option.bind (split_loop line_rx None [] w) (\<lambda>A. Some (cur # [CR, LF] # A))"
      using True by (simp add: split_line_any_prev [of "Some LF"])
    then show ?thesis using True by (intro exI [of _ cur] exI [of _ "[CR, LF]"]) simp
  next
    case False
    have "line_rx None (a # u @ LF # w) = None"
      using a u False by (cases u) auto
    then have step: "split_loop line_rx prev cur ((a # u) @ LF # w)
        = split_loop line_rx (Some a) (cur @ [a]) (u @ LF # w)"
      by (subst split_line_unfold) simp
    from Cons.IH [OF u, of "cur @ [a]" "Some a"] obtain c s
      where "c @ s = (cur @ [a]) @ u @ [LF]" "s \<noteq> []"
        "split_loop line_rx (Some a) (cur @ [a]) (u @ LF # w)
          = Option.bind (split_loop line_rx None [] w) (\<lambda>A. Some (c # s # A))"
      by blast
    with step show ?thesis by (intro exI [of _ c] exI [of _ s]) simp
  qed
qed

lemma merge_lines_parity: "i mod 2 = j mod 2 \<Longrightarrow> merge_lines i ls t = merge_lines j ls t"
proof (induction ls arbitrary: i j t)
  case Nil
  show ?case by simp
next
  case (Cons l ls)
  from Cons.prems have "(i + 1) mod 2 = (j + 1) mod 2" by presburger
  from Cons.IH [OF this] Cons.prems show ?case by simp
qed

lemma merge_lines_front:
  "even i \<or> ts \<noteq> [] \<Longrightarrow> merge_lines i ls (t0 # ts) = t0 # merge_lines i ls ts"
proof (induction ls arbitrary: i ts)
  case Nil
  show ?case by simp
next
  case (Cons l ls)
  show ?case
  proof (cases "even i")
    case True
    then show ?thesis using Cons.IH [of "i + 1" "ts @ [l]"] by (simp add: even_iff_mod_2_eq_zero)
  next
    case False
    with Cons.prems have "ts \<noteq> []" by simp
    with False show ?thesis
      using Cons.IH [of "i + 1" "butlast ts @ [last ts @ l]"]
      by (simp add: even_iff_mod_2_eq_zero)
  qed
qed

lemma merge_lines_pair: "merge_lines 0 (c # s # ls) [] = (c @ s) # merge_lines 0 ls []"
proof -
  have "merge_lines 0 (c # s # ls) [] = merge_lines 2 ls [c @ s]"
    by (simp add: numeral_2_eq_2)
  also have "\<dots> = merge_lines 0 ls [c @ s]" by (rule merge_lines_parity) simp
  also have "\<dots> = (c @ s) # merge_lines 0 ls []" by (rule merge_lines_front) simp
  finally show ?thesis .
qed

lemma finish_pair:
  assumes "s \<noteq> []"
  shows "merge_lines 0 (if c # s # A = [] \<or> last (c # s # A) = [] then butlast (c # s # A)
            else c # s # A) []
       = (c @ s) # merge_lines 0 (if A = [] \<or> last A = [] then butlast A else A) []"
  using assms by (cases "A = []") (simp_all add: merge_lines_pair del: merge_lines.simps)

lemma tokenize_line_unfold:
  "tokenize string False = Option.bind (split_loop line_rx None [] string)
     (\<lambda>lines. Some (merge_lines 0 (if lines = [] \<or> last lines = [] then butlast lines else lines) []))"
proof (cases "string = []")
  case True
  have "split_loop line_rx None [] [] = Some [[]]" by (subst split_loop.simps) simp
  with True show ?thesis by (simp add: tokenize_def js_split_def)
next
  case False
  then show ?thesis by (simp add: tokenize_def js_split_def)
qed

lemma tokenize_line_LF:
  assumes "LF \<notin> set u"
  shows "tokenize (u @ LF # w) False = map_option ((#) (u @ [LF])) (tokenize w False)"
proof -
  from split_line_LF [OF assms, of "[]" None w] obtain c s
    where cs: "c @ s = u @ [LF]" "s \<noteq> []"
      and sp: "split_loop line_rx None [] (u @ LF # w)
          = Option.bind (split_loop line_rx None [] w) (\<lambda>A. Some (c # s # A))"
    by auto
  show ?thesis
  proof (cases "split_loop line_rx None [] w")
    case None
    with sp show ?thesis by (simp add: tokenize_line_unfold)
  next
    case (Some A)
    with sp cs finish_pair [OF cs(2), of c A] show ?thesis
      by (simp add: tokenize_line_unfold)
  qed
qed

lemma tokenize_line_empty: "tokenize [] False = Some []"
  by (simp add: tokenize_def js_split_def)

lemma tokenize_line_single:
  assumes "LF \<notin> set u"
  shows "tokenize (u @ [LF]) False = Some [u @ [LF]]"
  using tokenize_line_LF [OF assms, of "[]"] by (simp add: tokenize_line_empty)


section \<open>\<^verbatim>\<open>unescape\<close> and the line breaks\<close>

lemma replaceAll_append: "replaceAll c r (x @ y) = replaceAll c r x @ replaceAll c r y"
  by (simp add: replaceAll_def)

lemma replaceAll_Cons: "replaceAll c r (a # y) = (if a = c then r else [a]) @ replaceAll c r y"
  by (simp add: replaceAll_def)

lemma replaceAll_notin: "d \<notin> set r \<Longrightarrow> d \<notin> set x \<Longrightarrow> d \<notin> set (replaceAll c r x)"
  by (auto simp: replaceAll_def)

lemma replaceAll_last:
  assumes "r \<noteq> []" and "last r \<noteq> CR" and "x = [] \<or> last x \<noteq> CR"
  shows "replaceAll c r x = [] \<or> last (replaceAll c r x) \<noteq> CR"
proof (cases x rule: rev_cases)
  case Nil
  then show ?thesis by (simp add: replaceAll_def)
next
  case (snoc xs a)
  with assms show ?thesis by (simp add: replaceAll_append replaceAll_Cons replaceAll_def)
qed

lemma replaceNewlines_notin_LF: "LF \<notin> set x \<Longrightarrow> LF \<notin> set (replaceNewlines x)"
  by (induction x rule: replaceNewlines.induct) (auto simp: js_def)

lemma replaceNewlines_LF: "replaceNewlines (LF # y) = BSL # js ''n'' @ [LF] @ replaceNewlines y"
  by (cases y) simp_all

lemma replaceNewlines_CRLF:
  "replaceNewlines (CR # LF # y) = BSL # js ''r'' @ BSL # js ''n'' @ [CR, LF] @ replaceNewlines y"
  by simp

lemma replaceNewlines_CR:
  "y = [] \<or> hd y \<noteq> LF \<Longrightarrow> replaceNewlines (CR # y) = BSL # js ''r'' @ replaceNewlines y"
  by (cases y) auto

lemma replaceNewlines_append:
  "x = [] \<or> last x \<noteq> CR \<or> y = [] \<or> hd y \<noteq> LF
   \<Longrightarrow> replaceNewlines (x @ y) = replaceNewlines x @ replaceNewlines y"
proof (induction x rule: replaceNewlines.induct)
  case 1
  show ?case by simp
next
  case (2 c)
  then show ?case by (cases y) auto
next
  case (3 c d s)
  then show ?case by (auto split: if_splits)
qed

lemma unescape_notin_LF: "LF \<notin> set x \<Longrightarrow> LF \<notin> set (unescape x)"
  by (simp add: unescape_def replaceNewlines_notin_LF replaceAll_notin js_def)

lemma unescape_last:
  assumes "x = [] \<or> last x \<noteq> CR"
  shows "replaceAll VT (BSL # js ''v'') (replaceAll TAB (BSL # js ''t'')
           (replaceAll FF (BSL # js ''f'') (replaceAll BS (BSL # js ''b'') x))) = []
     \<or> last (replaceAll VT (BSL # js ''v'') (replaceAll TAB (BSL # js ''t'')
           (replaceAll FF (BSL # js ''f'') (replaceAll BS (BSL # js ''b'') x)))) \<noteq> CR"
  by (intro replaceAll_last assms) (simp_all add: js_def)

lemma unescape_LF:
  assumes "x = [] \<or> last x \<noteq> CR"
  shows "unescape (x @ LF # y) = unescape x @ BSL # js ''n'' @ [LF] @ unescape y"
  using unescape_last [OF assms]
  by (simp add: unescape_def replaceAll_append replaceAll_Cons replaceNewlines_append
      replaceNewlines_LF del: replaceNewlines.simps)

lemma unescape_CRLF:
  "unescape (x @ CR # LF # y)
     = unescape x @ BSL # js ''r'' @ BSL # js ''n'' @ [CR, LF] @ unescape y"
  by (simp add: unescape_def replaceAll_append replaceAll_Cons replaceNewlines_append
      replaceNewlines_CRLF del: replaceNewlines.simps)

lemma unescape_CR:
  assumes "LF \<notin> set y"
  shows "unescape (x @ CR # y) = unescape x @ BSL # js ''r'' @ unescape y"
proof -
  let ?f = "\<lambda>s. replaceAll VT (BSL # js ''v'') (replaceAll TAB (BSL # js ''t'')
           (replaceAll FF (BSL # js ''f'') (replaceAll BS (BSL # js ''b'') s)))"
  from assms have "LF \<notin> set (?f y)" by (simp add: replaceAll_notin js_def)
  then have "?f y = [] \<or> hd (?f y) \<noteq> LF" by (cases "?f y") auto
  then have "replaceNewlines (CR # ?f y) = BSL # js ''r'' @ replaceNewlines (?f y)"
    by (rule replaceNewlines_CR)
  then show ?thesis
    by (simp add: unescape_def replaceAll_append replaceAll_Cons replaceNewlines_append
        del: replaceNewlines.simps)
qed


section \<open>Line terminators in \<^verbatim>\<open>diffstr\<close>\<close>

lemma diffstr_lines_returns: "\<exists>ts. diffstr_lines y = Some ts"
  using tokenize_returns [of "unescape y @ [LF]" False] by (simp add: diffstr_lines_def)

lemma diffstr_lines_split:
  assumes "unescape s @ [LF] = u @ LF # (unescape y @ [LF])"
    and "LF \<notin> set u" and "diffstr_lines y = Some ts"
  shows "diffstr_lines s = Some ((u @ [LF]) # ts)"
proof -
  have "diffstr_lines s = tokenize (u @ LF # (unescape y @ [LF])) False"
    by (simp only: diffstr_lines_def assms(1))
  also have "\<dots> = map_option ((#) (u @ [LF])) (tokenize (unescape y @ [LF]) False)"
    by (rule tokenize_line_LF [OF assms(2)])
  also have "\<dots> = Some ((u @ [LF]) # ts)"
    using assms(3) by (simp add: diffstr_lines_def)
  finally show ?thesis .
qed

text \<open>
  C7 (line terminators), as the code has it. Take a string whose first part \<open>x\<close> has no
  \<^verbatim>\<open>\n\<close>. A \<^verbatim>\<open>\n\<close> after \<open>x\<close> (not part of a \<^verbatim>\<open>\r\n\<close>) is escaped to the marker
  \<^verbatim>\<open>\n\<close> followed by the line break itself, and ends the first line token; so does a
  \<^verbatim>\<open>\r\n\<close>, escaped to the marker \<^verbatim>\<open>\r\n\<close> followed by \<^verbatim>\<open>\r\n\<close> itself: the rest \<open>y\<close> is
  tokenized as it is alone. A bare \<^verbatim>\<open>\r\<close> is replaced by the marker \<^verbatim>\<open>\r\<close> with no line
  break kept: when \<open>y\<close> has no \<^verbatim>\<open>\n\<close> either, the whole is one token.
\<close>

theorem diffstr_lines_terminators:
  assumes "LF \<notin> set x"
  shows "(x = [] \<or> last x \<noteq> CR \<longrightarrow>
            (\<exists>ts. diffstr_lines y = Some ts
               \<and> diffstr_lines (x @ LF # y) = Some ((unescape x @ BSL # js ''n'' @ [LF]) # ts)))
       \<and> (\<exists>ts. diffstr_lines y = Some ts
               \<and> diffstr_lines (x @ CR # LF # y)
                   = Some ((unescape x @ BSL # js ''r'' @ BSL # js ''n'' @ [CR, LF]) # ts))
       \<and> (LF \<notin> set y \<longrightarrow>
            diffstr_lines (x @ CR # y) = Some [unescape x @ BSL # js ''r'' @ unescape y @ [LF]])"
proof (intro conjI impI)
  obtain ts where ts: "diffstr_lines y = Some ts" using diffstr_lines_returns by blast
  have nx: "LF \<notin> set (unescape x)" using assms by (rule unescape_notin_LF)
  {
    assume "x = [] \<or> last x \<noteq> CR"
    then have "unescape (x @ LF # y) @ [LF]
        = (unescape x @ BSL # js ''n'') @ LF # (unescape y @ [LF])"
      by (simp add: unescape_LF)
    moreover have "LF \<notin> set (unescape x @ BSL # js ''n'')" using nx by (simp add: js_def)
    ultimately have "diffstr_lines (x @ LF # y)
        = Some (((unescape x @ BSL # js ''n'') @ [LF]) # ts)"
      using ts by (rule diffstr_lines_split)
    with ts show "\<exists>ts. diffstr_lines y = Some ts
        \<and> diffstr_lines (x @ LF # y) = Some ((unescape x @ BSL # js ''n'' @ [LF]) # ts)"
      by simp
  }
  have "unescape (x @ CR # LF # y) @ [LF]
      = (unescape x @ BSL # js ''r'' @ BSL # js ''n'' @ [CR]) @ LF # (unescape y @ [LF])"
    by (simp add: unescape_CRLF)
  moreover have "LF \<notin> set (unescape x @ BSL # js ''r'' @ BSL # js ''n'' @ [CR])"
    using nx by (simp add: js_def)
  ultimately have "diffstr_lines (x @ CR # LF # y)
      = Some (((unescape x @ BSL # js ''r'' @ BSL # js ''n'' @ [CR]) @ [LF]) # ts)"
    using ts by (rule diffstr_lines_split)
  with ts show "\<exists>ts. diffstr_lines y = Some ts
      \<and> diffstr_lines (x @ CR # LF # y)
          = Some ((unescape x @ BSL # js ''r'' @ BSL # js ''n'' @ [CR, LF]) # ts)"
    by simp
  {
    assume ny: "LF \<notin> set y"
    then have "LF \<notin> set (unescape x @ BSL # js ''r'' @ unescape y)"
      using nx by (simp add: unescape_notin_LF js_def)
    from tokenize_line_single [OF this] ny
    show "diffstr_lines (x @ CR # y) = Some [unescape x @ BSL # js ''r'' @ unescape y @ [LF]]"
      by (simp add: diffstr_lines_def unescape_CR)
  }
qed

text \<open>The three cases on \<^verbatim>\<open>a\nb\<close>, \<^verbatim>\<open>a\r\nb\<close> and \<^verbatim>\<open>a\rb\<close>.\<close>

lemma unescape_ab: "unescape (js ''a'') = js ''a''" "unescape (js ''b'') = js ''b''"
  by (simp_all add: unescape_def replaceAll_def js_def)

lemma diffstr_lines_b: "diffstr_lines (js ''b'') = Some [js ''b'' @ [LF]]"
  by code_simp

theorem diffstr_lines_terminators_witness:
  "diffstr_lines (js ''a'' @ LF # js ''b'') = Some [js ''a'' @ BSL # js ''n'' @ [LF], js ''b'' @ [LF]]
   \<and> diffstr_lines (js ''a'' @ CR # LF # js ''b'')
       = Some [js ''a'' @ BSL # js ''r'' @ BSL # js ''n'' @ [CR, LF], js ''b'' @ [LF]]
   \<and> diffstr_lines (js ''a'' @ CR # js ''b'') = Some [js ''a'' @ BSL # js ''r'' @ js ''b'' @ [LF]]"
proof -
  have x: "LF \<notin> set (js ''a'')" by (simp add: js_def)
  have x': "js ''a'' = [] \<or> last (js ''a'') \<noteq> CR" by (simp add: js_def)
  have y: "LF \<notin> set (js ''b'')" by (simp add: js_def)
  from diffstr_lines_terminators [OF x, of "js ''b''"] x' y show ?thesis
    by (simp add: unescape_ab diffstr_lines_b)
qed

text \<open>
  C7 as claimed says that a bare \<^verbatim>\<open>\r\<close> still gives a line-token boundary. On \<^verbatim>\<open>a\rb\<close>
  the escaped text has neither \<^verbatim>\<open>\r\<close> nor \<^verbatim>\<open>\n\<close> left, and there is one token.
\<close>

theorem bare_CR_no_boundary:
  "diffstr_lines (js ''a'' @ CR # js ''b'') = Some [js ''a'' @ BSL # js ''rb'' @ [LF]]
   \<and> CR \<notin> set (unescape (js ''a'' @ CR # js ''b''))
   \<and> LF \<notin> set (unescape (js ''a'' @ CR # js ''b''))"
  by code_simp


section \<open>The details of a line\<close>

lemma at_Some_set: "at xs i = Some p \<Longrightarrow> p \<in> set xs"
  by (auto simp: at_def split: if_splits)

lemma retag_type:
  assumes "i < length t"
  shows "type (retag t i) \<in> type ` set t"
proof (cases "at t (int i - 1)")
  case None
  with assms show ?thesis by (simp add: retag_def)
next
  case (Some p)
  then have "p \<in> set t" by (rule at_Some_set)
  with Some assms show ?thesis by (auto simp: retag_def)
qed

text \<open>
  C10 (the details of a line). Every entry of \<^verbatim>\<open>createDetails(line, tokens)\<close>, which is what
  \<^verbatim>\<open>diffstr\<close> stores in \<^verbatim>\<open>line.details\<close>, has the type of the line or is \<open>common\<close>: the
  filter keeps only such entries, and the re-tagging gives an entry the type of another
  entry of the filtered list.
\<close>

theorem createDetails_types:
  assumes "r \<in> set (createDetails line tokens)"
  shows "type r = type line \<or> type r = common"
proof -
  let ?t = "filter (\<lambda>r. type r = type line \<or> type r = common) tokens"
  from assms obtain i where "i < length ?t" and "r = retag ?t i"
    by (auto simp: createDetails_def Let_def)
  with retag_type [of i ?t] obtain q where "q \<in> set ?t" and "type r = type q" by auto
  then show ?thesis by auto
qed

theorem createDetails_types_witness:
  "DiffResult added (js '' '') None
     \<in> set (createDetails (DiffResult added (js ''a b'') None)
         [DiffResult removed (js ''x'') None, DiffResult added (js ''a'') None,
          DiffResult common (js '' '') None, DiffResult added (js ''b'') None])
   \<and> type (DiffResult added (js '' '') None :: jsstring DiffResult) = added"
proof -
  have "DiffResult added (js '' '') None
     \<in> set (createDetails (DiffResult added (js ''a b'') None)
         [DiffResult removed (js ''x'') None, DiffResult added (js ''a'') None,
          DiffResult common (js '' '') None, DiffResult added (js ''b'') None])"
    by code_simp
  with createDetails_types [OF this] show ?thesis by simp
qed

text \<open>
  C8 (merging of white space in the details), as the code has it. Let \<open>t\<close> be the tokens
  whose type is the line's or \<open>common\<close>. The result has one entry for each entry of \<open>t\<close>;
  the entry \<open>i\<close> is re-tagged with the type of its left neighbour in \<open>t\<close> when it is
  \<open>common\<close>, it has a left and a right neighbour in \<open>t\<close>, both of one type, and its value
  has a white-space character; every other entry is the entry of \<open>t\<close> unchanged.
\<close>

theorem createDetails_retags:
  assumes "t = filter (\<lambda>r. type r = type line \<or> type r = common) tokens"
    and "i < length t"
  shows "length (createDetails line tokens) = length t
     \<and> createDetails line tokens ! i =
         (if type (t ! i) = common \<and> 0 < i \<and> i + 1 < length t
              \<and> type (t ! (i - 1)) = type (t ! (i + 1)) \<and> has_space (value' (t ! i))
          then DiffResult (type (t ! (i - 1))) (value' (t ! i)) (details (t ! i))
          else t ! i)"
proof -
  have len: "length (createDetails line tokens) = length t"
    by (simp add: createDetails_def Let_def assms(1))
  have nth: "createDetails line tokens ! i = retag t i"
    using assms(2) by (simp add: createDetails_def Let_def assms(1) [symmetric])
  have "retag t i =
         (if type (t ! i) = common \<and> 0 < i \<and> i + 1 < length t
              \<and> type (t ! (i - 1)) = type (t ! (i + 1)) \<and> has_space (value' (t ! i))
          then DiffResult (type (t ! (i - 1))) (value' (t ! i)) (details (t ! i))
          else t ! i)"
  proof (cases i)
    case 0
    then show ?thesis by (simp add: retag_def at_def)
  next
    case (Suc j)
    with assms(2) show ?thesis
      by (auto simp: retag_def at_def nat_add_distrib)
  qed
  with len nth show ?thesis by simp
qed

text \<open>The example of the claim: the space between two removed words becomes removed.\<close>

theorem createDetails_retags_witness:
  "createDetails (DiffResult removed (js ''foo bar'') None)
     [DiffResult removed (js ''foo'') None, DiffResult common (js '' '') None,
      DiffResult removed (js ''bar'') None] ! 1
     = DiffResult removed (js '' '') None
   \<and> createDetails (DiffResult removed (js ''foo bar'') None)
     [DiffResult removed (js ''foo'') None, DiffResult common (js '' '') None,
      DiffResult removed (js ''bar'') None]
     = [DiffResult removed (js ''foo'') None, DiffResult removed (js '' '') None,
        DiffResult removed (js ''bar'') None]"
proof -
  let ?line = "DiffResult removed (js ''foo bar'') None"
  let ?tokens = "[DiffResult removed (js ''foo'') None, DiffResult common (js '' '') None,
      DiffResult removed (js ''bar'') None]"
  have t: "?tokens = filter (\<lambda>r. type r = type ?line \<or> type r = common) ?tokens" by simp
  have i: "1 < length ?tokens" by simp
  have sp: "has_space (js '' '')" by (simp add: has_space_def js_def is_space_def)
  have all: "createDetails ?line ?tokens
     = [DiffResult removed (js ''foo'') None, DiffResult removed (js '' '') None,
        DiffResult removed (js ''bar'') None]"
    by code_simp
  from createDetails_retags [OF t i] sp all show ?thesis by simp
qed

text \<open>
  C8 as claimed says that only a \<open>common\<close> token that is purely white space, with neighbours
  of one kind that is not \<open>common\<close>, is re-tagged. The token \<^verbatim>\<open>a b\<close>, which is not purely
  white space, is re-tagged; and a space whose left neighbour in the word-level script is
  an added token, and whose right neighbour is a removed one, is re-tagged in the details
  of a removed line.
\<close>

theorem createDetails_retags_other_tokens:
  "createDetails (DiffResult removed (js ''foo a b bar'') None)
     [DiffResult removed (js ''foo'') None, DiffResult common (js ''a b'') None,
      DiffResult removed (js ''bar'') None]
     = [DiffResult removed (js ''foo'') None, DiffResult removed (js ''a b'') None,
        DiffResult removed (js ''bar'') None]
   \<and> \<not> list_all is_space (js ''a b'')
   \<and> createDetails (DiffResult removed (js ''foo bar'') None)
     [DiffResult removed (js ''foo'') None, DiffResult added (js ''x'') None,
      DiffResult common (js '' '') None, DiffResult removed (js ''bar'') None]
     = [DiffResult removed (js ''foo'') None, DiffResult removed (js '' '') None,
        DiffResult removed (js ''bar'') None]"
  by code_simp

section \<open>The engine and the tokenizer return\<close>

text \<open>
  C9 (totality). \<^verbatim>\<open>diffSequence\<close> returns for every pair of sequences, and \<^verbatim>\<open>tokenize\<close>
  returns for every string, in the word mode and in the line mode. No statement of either
  throws. The search loop, started at \<open>d = 0\<close> with \<open>max' = m + n\<close>, returns after at most
  \<open>m + n\<close> rounds: \<^verbatim>\<open>trace\<close> has at most \<open>m + n\<close> rows. The loops of the search are bounded
  by \<open>max' - d\<close>, \<open>hi - k\<close> and \<open>n - x\<close>; the loop of \<^verbatim>\<open>split\<close> by the text left, and the
  joining loop by the tokens left after \<open>i\<close>.
\<close>

theorem diffSequence_tokenize_return:
  "(\<exists>r. diffSequence a b = Some r)
   \<and> (\<exists>v trace. d_loop a b start n m (m + n) 0 v0 [] = Some (v, trace)
         \<and> length trace \<le> nat (m + n))
   \<and> (\<exists>ts. tokenize string True = Some ts)
   \<and> (\<exists>ts. tokenize string False = Some ts)"
proof (intro conjI)
  show "\<exists>r. diffSequence a b = Some r" by (simp add: diffSequence_empty)
  show "\<exists>v trace. d_loop a b start n m (m + n) 0 v0 [] = Some (v, trace)
      \<and> length trace \<le> nat (m + n)"
    using d_loop_trace [of a b start n m "m + n" 0 v0 "[]"] by simp
  show "\<exists>ts. tokenize string True = Some ts"
    using tokenize_returns [of string True] by blast
  show "\<exists>ts. tokenize string False = Some ts"
    using tokenize_returns [of string False] by blast
qed

end
